theory Spec2Isabelle
  imports Complex_Main
begin

section \<open>Chat-history suggestion engine of \<^verbatim>\<open>backend/utils/contextual_suggestions.py\<close>\<close>

subsection \<open>Python strings\<close>

text \<open>
  A Python \<^verbatim>\<open>str\<close> is a sequence of Unicode code points, so it is modelled as a list of
  code points (natural numbers), not as a list of bytes. \<open>str\<close> embeds an ASCII literal.
\<close>

type_synonym codepoint = nat
type_synonym pystr = "codepoint list"

definition str :: "string \<Rightarrow> pystr" where
  "str s = map of_char s"

text \<open>
  \<^verbatim>\<open>str.isspace\<close> on one code point. The regular expression class \<^verbatim>\<open>\s\<close> (on a
  \<^verbatim>\<open>str\<close> pattern) and \<^verbatim>\<open>str.split()\<close> both use this same set: the ASCII
  whitespace 9..13 and 32, the separators 28..31, and the Unicode spaces listed.
\<close>

definition isspace :: "codepoint \<Rightarrow> bool" where
  "isspace c \<longleftrightarrow>
     (9 \<le> c \<and> c \<le> 13) \<or> (28 \<le> c \<and> c \<le> 32) \<or> c = 133 \<or> c = 160 \<or> c = 5760 \<or>
     (8192 \<le> c \<and> c \<le> 8202) \<or> c = 8232 \<or> c = 8233 \<or> c = 8239 \<or> c = 8287 \<or> c = 12288"

definition is_lower_az :: "codepoint \<Rightarrow> bool" where
  "is_lower_az c \<longleftrightarrow> 97 \<le> c \<and> c \<le> 122"

definition is_digit :: "codepoint \<Rightarrow> bool" where
  "is_digit c \<longleftrightarrow> 48 \<le> c \<and> c \<le> 57"

text \<open>
  \<^verbatim>\<open>text.lower()\<close>. The code points whose lowercase form contains an ASCII letter are
  \<^verbatim>\<open>A\<close>..\<^verbatim>\<open>Z\<close>, U+0130 (lowercased to \<^verbatim>\<open>i\<close> followed by U+0307) and U+212A
  (the Kelvin sign, lowercased to \<^verbatim>\<open>k\<close>). Every other code point is either unchanged
  (all of \<^verbatim>\<open>a\<close>..\<^verbatim>\<open>z\<close>, the digits and the whitespace) or is a non-ASCII cased letter
  whose lowercase form is again outside \<^verbatim>\<open>[a-z0-9\s]\<close>; such a code point is kept as
  it is here, and the substitution that follows in \<open>normalize\<close> deletes it in either form.
\<close>

definition lower_cp :: "codepoint \<Rightarrow> pystr" where
  "lower_cp c =
     (if 65 \<le> c \<and> c \<le> 90 then [c + 32]
      else if c = 304 then [105, 775]
      else if c = 8490 then [107]
      else [c])"

definition lower :: "pystr \<Rightarrow> pystr" where
  "lower text = concat (map lower_cp text)"

text \<open>\<^verbatim>\<open>re.sub(r"[^a-z0-9\s]", "", text)\<close>: delete every code point outside the class.\<close>

definition keep_cp :: "codepoint \<Rightarrow> bool" where
  "keep_cp c \<longleftrightarrow> is_lower_az c \<or> is_digit c \<or> isspace c"

definition re_sub_strip :: "pystr \<Rightarrow> pystr" where
  "re_sub_strip text = filter keep_cp text"

text \<open>
  \<^verbatim>\<open>text.split()\<close> with no separator: the maximal runs of non-whitespace code points, in
  order; no empty piece is produced. \<open>cur\<close> is the run being read.
\<close>

fun split_from :: "pystr \<Rightarrow> pystr \<Rightarrow> pystr list" where
  "split_from cur [] = (if cur = [] then [] else [cur])"
| "split_from cur (c # cs) =
     (if isspace c then (if cur = [] then split_from [] cs else cur # split_from [] cs)
      else split_from (cur @ [c]) cs)"

definition split_ws :: "pystr \<Rightarrow> pystr list" where
  "split_ws text = split_from [] text"

text \<open>\<^verbatim>\<open>sep.join(parts)\<close>.\<close>

fun join :: "pystr \<Rightarrow> pystr list \<Rightarrow> pystr" where
  "join sep [] = []"
| "join sep [x] = x"
| "join sep (x # y # ys) = x @ sep @ join sep (y # ys)"

subsection \<open>Text cleaning\<close>

text \<open>
  \<^verbatim>\<open>
  def normalize(text: str) -> List[str]:
      text = text.lower()
      text = re.sub(r"[^a-z0-9\s]", "", text)
      return text.split()
  \<close>
\<close>

definition normalize :: "pystr \<Rightarrow> pystr list" where
  "normalize text = split_ws (re_sub_strip (lower text))"

subsection \<open>Exceptions, JSON values and the data source\<close>

text \<open>
  The exceptions that the module can let escape. The first three are raised by
  \<^verbatim>\<open>path.read_text(encoding="utf-8")\<close> and \<^verbatim>\<open>json.loads\<close>; the others by the
  module's own statements on a value of the wrong shape.
\<close>

datatype py_error =
  OSError | UnicodeDecodeError | JSONDecodeError | TypeError | AttributeError | IndexError

text \<open>
  What \<^verbatim>\<open>json.loads\<close> returns: \<^verbatim>\<open>None\<close>, \<^verbatim>\<open>bool\<close>, \<^verbatim>\<open>int\<close>, \<^verbatim>\<open>float\<close>,
  \<^verbatim>\<open>str\<close>, \<^verbatim>\<open>list\<close> and \<^verbatim>\<open>dict\<close>. A \<^verbatim>\<open>dict\<close> is the list of its items in
  insertion order, read with \<open>map_of\<close>.
\<close>

datatype json =
  JNull
| JBool bool
| JInt int
| JFloat real
| JString pystr
| JArray "json list"
| JObject "(pystr \<times> json) list"

text \<open>
  The state of \<^verbatim>\<open>chat_history_path\<close> as the module observes it: \<^verbatim>\<open>path.exists()\<close> is
  false (\<open>NoSuchFile\<close>), or it is true and
  \<^verbatim>\<open>json.loads(path.read_text(encoding="utf-8"))\<close> either raises (\<open>Inl\<close>) or returns a
  value (\<open>Inr\<close>).
\<close>

datatype path = NoSuchFile | File "py_error + json"

type_synonym token = pystr
type_synonym sentence = "token list"

definition N :: int where
  "N = 3"

subsection \<open>Sequences\<close>

text \<open>\<^verbatim>\<open>range(n)\<close> for an integer \<open>n\<close>: empty when \<open>n \<le> 0\<close>.\<close>

definition py_range :: "int \<Rightarrow> int list" where
  "py_range n = map int [0..<nat n]"

text \<open>
  \<^verbatim>\<open>xs[start:stop]\<close> with step 1: a negative bound counts from the end, and both bounds
  are clamped to the sequence; slicing never raises.
\<close>

definition slice_bound :: "nat \<Rightarrow> int \<Rightarrow> nat" where
  "slice_bound n i = (if i < 0 then nat (max (int n + i) 0) else min (nat i) n)"

definition slice :: "'a list \<Rightarrow> int option \<Rightarrow> int option \<Rightarrow> 'a list" where
  "slice xs start stop =
     (let n = length xs;
          a = (case start of None \<Rightarrow> 0 | Some i \<Rightarrow> slice_bound n i);
          b = (case stop of None \<Rightarrow> n | Some j \<Rightarrow> slice_bound n j)
      in take (b - a) (drop a xs))"

text \<open>\<^verbatim>\<open>xs[i]\<close>: \<^verbatim>\<open>IndexError\<close> outside \<open>-len(xs) \<le> i < len(xs)\<close>.\<close>

definition list_getitem :: "'a list \<Rightarrow> int \<Rightarrow> py_error + 'a" where
  "list_getitem xs i =
     (if 0 \<le> i \<and> i < int (length xs) then Inr (xs ! nat i)
      else if i < 0 \<and> - int (length xs) \<le> i then Inr (xs ! nat (int (length xs) + i))
      else Inl IndexError)"

subsection \<open>Loading the chat history\<close>

text \<open>
  \<^verbatim>\<open>for item in data\<close>: a list gives its elements, a dict its keys, a string its
  characters; the other JSON values are not iterable (\<^verbatim>\<open>TypeError\<close>).
\<close>

fun iter :: "json \<Rightarrow> py_error + json list" where
  "iter (JArray xs) = Inr xs"
| "iter (JObject kvs) = Inr (map (\<lambda>kv. JString (fst kv)) kvs)"
| "iter (JString s) = Inr (map (\<lambda>c. JString [c]) s)"
| "iter _ = Inl TypeError"

text \<open>\<^verbatim>\<open>item.get("message", "")\<close>: only a dict has \<^verbatim>\<open>get\<close>.\<close>

fun get_message :: "json \<Rightarrow> py_error + json" where
  "get_message (JObject kvs) =
     Inr (case map_of kvs (str ''message'') of Some v \<Rightarrow> v | None \<Rightarrow> JString [])"
| "get_message _ = Inl AttributeError"

text \<open>\<^verbatim>\<open>normalize(msg)\<close> on a JSON value: only a string has \<^verbatim>\<open>lower\<close>.\<close>

fun normalize_value :: "json \<Rightarrow> py_error + token list" where
  "normalize_value (JString s) = Inr (normalize s)"
| "normalize_value _ = Inl AttributeError"

text \<open>
  \<^verbatim>\<open>
  def load_sentences(path: Path) -> List[List[str]]:
      if not path.exists():
          return []
      data = json.loads(path.read_text(encoding="utf-8"))
      sentences = []
      for item in data:
          msg = item.get("message", "")
          tokens = normalize(msg)
          if len(tokens) >= N:
              sentences.append(tokens)
      return sentences
  \<close>
\<close>

fun load_loop :: "json list \<Rightarrow> sentence list \<Rightarrow> py_error + sentence list" where
  "load_loop [] sentences = Inr sentences"
| "load_loop (item # items) sentences =
     (case get_message item of
        Inl e \<Rightarrow> Inl e
      | Inr msg \<Rightarrow>
          (case normalize_value msg of
             Inl e \<Rightarrow> Inl e
           | Inr tokens \<Rightarrow>
               if int (length tokens) \<ge> N then load_loop items (sentences @ [tokens])
               else load_loop items sentences))"

fun load_sentences :: "path \<Rightarrow> py_error + sentence list" where
  "load_sentences NoSuchFile = Inr []"
| "load_sentences (File (Inl e)) = Inl e"
| "load_sentences (File (Inr data)) =
     (case iter data of Inl e \<Rightarrow> Inl e | Inr items \<Rightarrow> load_loop items [])"

subsection \<open>Dictionaries\<close>

text \<open>
  A \<^verbatim>\<open>dict\<close> keeps its keys in insertion order, and \<^verbatim>\<open>Counter.most_common\<close>
  depends on that order, so a dict is the list of its items in insertion order.
  \<open>setitem\<close> is \<^verbatim>\<open>d[k] = v\<close>: an existing key keeps its place, a new key goes last.
  \<open>has_key\<close> is \<^verbatim>\<open>k in d\<close>.
\<close>

fun setitem :: "('k \<times> 'v) list \<Rightarrow> 'k \<Rightarrow> 'v \<Rightarrow> ('k \<times> 'v) list" where
  "setitem [] k v = [(k, v)]"
| "setitem (kv # kvs) k v = (if fst kv = k then (k, v) # kvs else kv # setitem kvs k v)"

definition has_key :: "('k \<times> 'v) list \<Rightarrow> 'k \<Rightarrow> bool" where
  "has_key d k \<longleftrightarrow> map_of d k \<noteq> None"

type_synonym ctx = "token list"
type_synonym counter = "(token \<times> int) list"
type_synonym model = "(ctx \<times> counter) list"

text \<open>\<^verbatim>\<open>Counter.__getitem__\<close>: a missing key reads as 0 and is not inserted.\<close>

definition counter_getitem :: "counter \<Rightarrow> token \<Rightarrow> int" where
  "counter_getitem c w = (case map_of c w of Some n \<Rightarrow> n | None \<Rightarrow> 0)"

text \<open>
  \<^verbatim>\<open>defaultdict(Counter).__getitem__\<close>: a missing key is inserted with an empty
  \<^verbatim>\<open>Counter\<close>, which is returned. The dict after the read is returned too.
\<close>

definition defaultdict_getitem :: "model \<Rightarrow> ctx \<Rightarrow> counter \<times> model" where
  "defaultdict_getitem m k =
     (case map_of m k of Some c \<Rightarrow> (c, m) | None \<Rightarrow> ([], setitem m k []))"

text \<open>
  \<^verbatim>\<open>Counter.most_common(1)\<close> is \<^verbatim>\<open>heapq.nlargest(1, items, key=count)\<close>, which for
  one element is \<^verbatim>\<open>max(items, key=count)\<close>, or the empty list for no items.
  \<^verbatim>\<open>max\<close> replaces its candidate only by a strictly greater one.
\<close>

fun max_by_count :: "token \<times> int \<Rightarrow> counter \<Rightarrow> token \<times> int" where
  "max_by_count best [] = best"
| "max_by_count best (x # xs) = max_by_count (if snd x > snd best then x else best) xs"

fun most_common_1 :: "counter \<Rightarrow> (token \<times> int) list" where
  "most_common_1 [] = []"
| "most_common_1 (x # xs) = [max_by_count x xs]"

subsection \<open>Building the n-gram model\<close>

text \<open>
  \<^verbatim>\<open>model[prefix][next_word] += 1\<close> on a \<^verbatim>\<open>defaultdict(Counter)\<close>: read the Counter
  at \<open>prefix\<close> (inserting an empty one when the key is new), read the count of
  \<open>next_word\<close> in it, and store the count plus one. The Counter is updated in place
  and the dict holds that same object, so the dict's entry at \<open>prefix\<close> is the updated
  Counter.
\<close>

definition count_ngram :: "model \<Rightarrow> ctx \<Rightarrow> token \<Rightarrow> model" where
  "count_ngram model prefix next_word =
     (let (c, model') = defaultdict_getitem model prefix;
          c' = setitem c next_word (counter_getitem c next_word + 1)
      in setitem model' prefix c')"

text \<open>
  \<^verbatim>\<open>
  def build_ngram_model(sentences: List[List[str]]) -> dict:
      model = defaultdict(Counter)
      for tokens in sentences:
          for i in range(len(tokens) - N + 1):
              prefix = tuple(tokens[i:i + N - 1])
              next_word = tokens[i + N - 1]
              model[prefix][next_word] += 1
      return model
  \<close>
  \<open>build_inner\<close> is the loop over \<open>i\<close>, \<open>build_outer\<close> the loop over the sentences.
\<close>

fun build_inner :: "sentence \<Rightarrow> int list \<Rightarrow> model \<Rightarrow> py_error + model" where
  "build_inner tokens [] model = Inr model"
| "build_inner tokens (i # idxs) model =
     (let prefix = slice tokens (Some i) (Some (i + N - 1)) in
      case list_getitem tokens (i + N - 1) of
        Inl e \<Rightarrow> Inl e
      | Inr next_word \<Rightarrow> build_inner tokens idxs (count_ngram model prefix next_word))"

fun build_outer :: "sentence list \<Rightarrow> model \<Rightarrow> py_error + model" where
  "build_outer [] model = Inr model"
| "build_outer (tokens # rest) model =
     (case build_inner tokens (py_range (int (length tokens) - N + 1)) model of
        Inl e \<Rightarrow> Inl e
      | Inr model' \<Rightarrow> build_outer rest model')"

definition build_ngram_model :: "sentence list \<Rightarrow> py_error + model" where
  "build_ngram_model sentences = build_outer sentences []"

subsection \<open>Autocomplete\<close>

text \<open>
  \<^verbatim>\<open>
  def autocomplete(model, user_input: str, max_words: int = 10) -> str:
      tokens = normalize(user_input)
      if len(tokens) < N - 1:
          return ""
      prefix = tuple(tokens[-(N - 1):])
      suggestion = []
      for _ in range(max_words):
          if prefix not in model:
              break
          next_word = model[prefix].most_common(1)[0][0]
          suggestion.append(next_word)
          prefix = (*prefix[1:], next_word)
      return " ".join(suggestion)
  \<close>
  The model is a mutable \<^verbatim>\<open>defaultdict\<close> and \<^verbatim>\<open>model[prefix]\<close> can write to it, so
  the loop and the function return the model after the call next to their result.
  \<open>autocomplete_loop\<close> is the \<^verbatim>\<open>for\<close> loop; its first argument is what is left of
  \<^verbatim>\<open>range(max_words)\<close>.
\<close>

fun autocomplete_loop ::
  "int list \<Rightarrow> model \<Rightarrow> ctx \<Rightarrow> token list \<Rightarrow> (py_error + token list) \<times> model" where
  "autocomplete_loop [] model prefix suggestion = (Inr suggestion, model)"
| "autocomplete_loop (i # rest) model prefix suggestion =
     (if \<not> has_key model prefix then (Inr suggestion, model)
      else
        (case defaultdict_getitem model prefix of
           (c, model') \<Rightarrow>
             (case list_getitem (most_common_1 c) 0 of
                Inl e \<Rightarrow> (Inl e, model')
              | Inr best \<Rightarrow>
                  (let next_word = fst best in
                   autocomplete_loop rest model'
                     (slice prefix (Some 1) None @ [next_word]) (suggestion @ [next_word])))))"

definition autocomplete :: "model \<Rightarrow> pystr \<Rightarrow> int \<Rightarrow> (py_error + pystr) \<times> model" where
  "autocomplete model user_input max_words =
     (let tokens = normalize user_input in
      if int (length tokens) < N - 1 then (Inr [], model)
      else
        (let prefix = slice tokens (Some (- (N - 1))) None in
         case autocomplete_loop (py_range max_words) model prefix [] of
           (Inl e, model') \<Rightarrow> (Inl e, model')
         | (Inr suggestion, model') \<Rightarrow> (Inr (join (str '' '') suggestion), model')))"

subsection \<open>The public function\<close>

text \<open>
  \<^verbatim>\<open>
  def get_contextual_suggestion(chat_history_path, user_input, max_words=10) -> str:
      sentences = load_sentences(chat_history_path)
      if not sentences:
          return ""
      model = build_ngram_model(sentences)
      return autocomplete(model, user_input, max_words)
  \<close>
  The model is local to the call, so only the result is returned.
\<close>

definition get_contextual_suggestion :: "path \<Rightarrow> pystr \<Rightarrow> int \<Rightarrow> py_error + pystr" where
  "get_contextual_suggestion chat_history_path user_input max_words =
     (case load_sentences chat_history_path of
        Inl e \<Rightarrow> Inl e
      | Inr sentences \<Rightarrow>
          if sentences = [] then Inr []
          else
            (case build_ngram_model sentences of
               Inl e \<Rightarrow> Inl e
             | Inr model \<Rightarrow> fst (autocomplete model user_input max_words)))"

subsection \<open>Vocabulary of the properties\<close>

text \<open>
  A Token of the specification: a nonempty word of lowercase ASCII letters and digits.
\<close>

definition is_token :: "pystr \<Rightarrow> bool" where
  "is_token t \<longleftrightarrow> t \<noteq> [] \<and> (\<forall>c\<in>set t. is_lower_az c \<or> is_digit c)"

text \<open>
  The text of a message record: the record is a JSON object, and its \<^verbatim>\<open>"message"\<close>
  field, when present, is a string; a record without the field has the empty text.
  A value that is not such a record has no text.
\<close>

definition record_text :: "json \<Rightarrow> pystr option" where
  "record_text item =
     (case item of
        JObject kvs \<Rightarrow>
          (case map_of kvs (str ''message'') of
             None \<Rightarrow> Some []
           | Some (JString s) \<Rightarrow> Some s
           | Some _ \<Rightarrow> None)
      | _ \<Rightarrow> None)"

definition has_message :: "json \<Rightarrow> bool" where
  "has_message item =
     (case item of JObject kvs \<Rightarrow> map_of kvs (str ''message'') \<noteq> None | _ \<Rightarrow> False)"


text \<open>
  The counting pass of \<open>build_ngram_model\<close> as a sequence: \<open>ngrams tokens\<close> is the list
  of the pairs (\<open>prefix\<close>, \<open>next_word\<close>) that the inner loop counts for one sentence, in
  loop order; \<open>observations\<close> is that list for all the sentences; \<open>count_pass\<close> counts a
  list of such pairs into a model, one \<open>count_ngram\<close> each. \<open>first_seen x xs\<close> is the
  position of the first \<open>x\<close> in \<open>xs\<close>. \<open>counter_of obs k c\<close> says that \<open>c\<close> is the Counter
  of the observations \<open>obs\<close> at the Context \<open>k\<close>: its keys are the next-Tokens observed
  after \<open>k\<close>, each once, each with its number of observations, in the order in which they
  were first observed.
\<close>

definition ngrams :: "sentence \<Rightarrow> (ctx \<times> token) list" where
  "ngrams tokens =
     map (\<lambda>i. (take 2 (drop i tokens), tokens ! (i + 2))) [0..<length tokens - 2]"

definition observations :: "sentence list \<Rightarrow> (ctx \<times> token) list" where
  "observations sentences = concat (map ngrams sentences)"

definition count_pass :: "(ctx \<times> token) list \<Rightarrow> model \<Rightarrow> model" where
  "count_pass obs model = fold (\<lambda>ob m. count_ngram m (fst ob) (snd ob)) obs model"

definition first_seen :: "'a \<Rightarrow> 'a list \<Rightarrow> nat" where
  "first_seen x xs = length (takeWhile (\<lambda>y. y \<noteq> x) xs)"

definition counter_of :: "(ctx \<times> token) list \<Rightarrow> ctx \<Rightarrow> counter \<Rightarrow> bool" where
  "counter_of obs k c \<longleftrightarrow>
     distinct (map fst c) \<and>
     set (map fst c) = set (map snd (filter (\<lambda>ob. fst ob = k) obs)) \<and>
     (\<forall>(w, n)\<in>set c. n = int (count_list obs (k, w))) \<and>
     sorted_wrt (\<lambda>a b. first_seen (k, a) obs < first_seen (k, b) obs) (map fst c)"

section \<open>Properties\<close>

subsection \<open>Tokenizer\<close>

lemmas normalize_eval =
  normalize_def split_ws_def re_sub_strip_def lower_def lower_cp_def keep_cp_def
  is_lower_az_def is_digit_def isspace_def str_def

text \<open>
  Every piece that \<open>split_from\<close> returns is nonempty and free of whitespace, and its
  code points come from the run being read or from the rest of the text.
\<close>

lemma split_from_pieces:
  "\<forall>c\<in>set cur. \<not> isspace c \<Longrightarrow> t \<in> set (split_from cur s) \<Longrightarrow>
   t \<noteq> [] \<and> (\<forall>c\<in>set t. \<not> isspace c \<and> c \<in> set cur \<union> set s)"
proof (induction s arbitrary: cur)
  case Nil
  then show ?case by (auto split: if_splits)
next
  case (Cons a s)
  show ?case
  proof (cases "isspace a")
    case True
    with Cons.prems have "t = cur \<and> cur \<noteq> [] \<or> t \<in> set (split_from [] s)"
      by (auto split: if_splits)
    then show ?thesis
    proof
      assume "t = cur \<and> cur \<noteq> []"
      with Cons.prems(1) show ?thesis by auto
    next
      assume "t \<in> set (split_from [] s)"
      from Cons.IH [of "[]", OF _ this] show ?thesis by auto
    qed
  next
    case False
    with Cons.prems have t: "t \<in> set (split_from (cur @ [a]) s)" by simp
    from False Cons.prems(1) have "\<forall>c\<in>set (cur @ [a]). \<not> isspace c" by auto
    from Cons.IH [OF this t] show ?thesis by auto
  qed
qed

lemma normalize_is_token: "t \<in> set (normalize s) \<Longrightarrow> is_token t"
proof -
  assume "t \<in> set (normalize s)"
  then have "t \<in> set (split_from [] (filter keep_cp (lower s)))"
    by (simp add: normalize_def split_ws_def re_sub_strip_def)
  from split_from_pieces [OF _ this]
  have "t \<noteq> [] \<and> (\<forall>c\<in>set t. \<not> isspace c \<and> c \<in> set (filter keep_cp (lower s)))" by simp
  then show ?thesis by (auto simp: is_token_def keep_cp_def)
qed

text \<open>
  Claim C8. Every token that \<open>normalize\<close> produces is a nonempty string of lowercase
  ASCII letters and digits only; the empty string normalizes to the empty sequence; and
  \<^verbatim>\<open>"I WILL  review!!"\<close> normalizes to the same tokens as \<^verbatim>\<open>"i will review"\<close>, namely
  \<^verbatim>\<open>["i", "will", "review"]\<close>.
\<close>

theorem normalize_tokens:
  "(\<forall>t\<in>set (normalize s). is_token t) \<and> normalize [] = [] \<and>
   normalize (str ''I WILL  review!!'') = normalize (str ''i will review'') \<and>
   normalize (str ''i will review'') = [str ''i'', str ''will'', str ''review'']"
proof -
  have a: "\<forall>t\<in>set (normalize s). is_token t" using normalize_is_token by blast
  have b: "normalize [] = []" by (simp add: normalize_eval)
  have c: "normalize (str ''I WILL  review!!'') = [str ''i'', str ''will'', str ''review'']"
    by (simp add: normalize_eval)
  have d: "normalize (str ''i will review'') = [str ''i'', str ''will'', str ''review'']"
    by (simp add: normalize_eval)
  from a b c d show ?thesis by simp
qed

theorem normalize_tokens_witness:
  "str ''dont'' \<in> set (normalize (str ''Don't  STOP 42 times'')) \<and> is_token (str ''dont'') \<and>
   str ''42'' \<in> set (normalize (str ''Don't  STOP 42 times'')) \<and> is_token (str ''42'')"
proof -
  have n: "normalize (str ''Don't  STOP 42 times'') =
      [str ''dont'', str ''stop'', str ''42'', str ''times'']"
    by (simp add: normalize_eval)
  from normalize_tokens [of "str ''Don't  STOP 42 times''"]
  have "\<forall>t\<in>set (normalize (str ''Don't  STOP 42 times'')). is_token t" by blast
  with n show ?thesis by simp
qed

text \<open>
  Splitting undoes joining with single spaces, for words that are nonempty and free of
  whitespace; lowercasing and the substitution leave a joined token list as it is.
\<close>

lemma split_from_run:
  "\<forall>c\<in>set t. \<not> isspace c \<Longrightarrow> split_from cur (t @ rest) = split_from (cur @ t) rest"
  by (induction t arbitrary: cur) simp_all

lemma isspace_32: "isspace 32"
  by (simp add: isspace_def)

lemma token_no_space: "is_token t \<Longrightarrow> c \<in> set t \<Longrightarrow> \<not> isspace c"
  by (auto simp: is_token_def is_lower_az_def is_digit_def isspace_def)

lemma split_join_tokens:
  "\<forall>t\<in>set ts. is_token t \<Longrightarrow> split_from [] (join [32] ts) = ts"
proof (induction "[32::nat]" ts rule: join.induct)
  case 1
  show ?case by simp
next
  case (2 x)
  then have x: "is_token x" by simp
  then have "\<forall>c\<in>set x. \<not> isspace c" using token_no_space by blast
  from split_from_run [OF this, of "[]" "[]"] x show ?case by (simp add: is_token_def)
next
  case (3 x y ys)
  then have x: "is_token x" and rest: "\<forall>t\<in>set (y # ys). is_token t" by simp_all
  from x have "\<forall>c\<in>set x. \<not> isspace c" using token_no_space by blast
  from split_from_run [OF this, of "[]" "32 # join [32] (y # ys)"]
  have "split_from [] (join [32] (x # y # ys)) = split_from x (32 # join [32] (y # ys))"
    by simp
  also have "\<dots> = x # split_from [] (join [32] (y # ys))"
    using x by (simp add: isspace_32 is_token_def)
  also have "\<dots> = x # y # ys" using 3(1) [OF rest] by simp
  finally show ?case .
qed

lemma set_join: "set (join sep ts) \<subseteq> set sep \<union> \<Union> (set ` set ts)"
  by (induction sep ts rule: join.induct) auto

lemma lower_fixed: "\<forall>c\<in>set s. lower_cp c = [c] \<Longrightarrow> lower s = s"
  by (induction s) (simp_all add: lower_def)

lemma join_tokens_chars:
  assumes "\<forall>t\<in>set ts. is_token t" and "c \<in> set (join [32] ts)"
  shows "is_lower_az c \<or> is_digit c \<or> c = 32"
proof -
  from set_join [of "[32]" ts] assms(2) have "c = 32 \<or> (\<exists>t\<in>set ts. c \<in> set t)" by auto
  with assms(1) show ?thesis by (auto simp: is_token_def)
qed

text \<open>
  Claim C9. Tokenization is idempotent under re-normalization: joining the tokens of
  \<open>normalize s\<close> with single spaces and normalizing the result gives \<open>normalize s\<close> again.
\<close>

theorem normalize_join_normalize: "normalize (join (str '' '') (normalize s)) = normalize s"
proof -
  let ?ts = "normalize s"
  let ?j = "join [32] ?ts"
  have tok: "\<forall>t\<in>set ?ts. is_token t" using normalize_is_token by blast
  have chars: "\<forall>c\<in>set ?j. is_lower_az c \<or> is_digit c \<or> c = 32"
    using join_tokens_chars [OF tok] by blast
  have "\<forall>c\<in>set ?j. lower_cp c = [c]"
    using chars by (auto simp: lower_cp_def is_lower_az_def is_digit_def)
  then have l: "lower ?j = ?j" by (rule lower_fixed)
  have "\<forall>c\<in>set ?j. keep_cp c"
    using chars by (auto simp: keep_cp_def isspace_32)
  then have f: "re_sub_strip ?j = ?j" by (simp add: re_sub_strip_def)
  have sp: "str '' '' = [32]" by (simp add: str_def)
  show ?thesis
    using split_join_tokens [OF tok] l f sp by (simp add: normalize_def [of ?j] split_ws_def)
qed

theorem normalize_join_normalize_witness:
  "normalize (join (str '' '') (normalize (str ''I WILL  review!!''))) =
   [str ''i'', str ''will'', str ''review'']"
proof -
  have "normalize (str ''I WILL  review!!'') = [str ''i'', str ''will'', str ''review'']"
    by (simp add: normalize_eval)
  with normalize_join_normalize [of "str ''I WILL  review!!''"] show ?thesis by simp
qed

subsection \<open>Loading\<close>

text \<open>
  On a list of records that all have a text, the loading loop raises nothing and
  appends, in order, the normalized texts of at least \<open>N\<close> tokens.
\<close>

lemma record_text_step:
  "record_text item = Some t \<Longrightarrow>
   \<exists>msg. get_message item = Inr msg \<and> normalize_value msg = Inr (normalize t)"
  by (cases item) (auto simp: record_text_def split: option.splits json.splits)

lemma load_loop_records:
  "\<forall>item\<in>set items. record_text item \<noteq> None \<Longrightarrow>
   load_loop items acc =
     Inr (acc @ filter (\<lambda>ts. N \<le> int (length ts))
                  (map (\<lambda>item. normalize (the (record_text item))) items))"
proof (induction items arbitrary: acc)
  case Nil
  show ?case by simp
next
  case (Cons item items)
  from Cons.prems obtain t where t: "record_text item = Some t" by auto
  from record_text_step [OF t] obtain msg
    where m: "get_message item = Inr msg" "normalize_value msg = Inr (normalize t)" by blast
  from Cons.prems have rest: "\<forall>item\<in>set items. record_text item \<noteq> None" by simp
  show ?case using m t Cons.IH [OF rest] by simp
qed

lemma filter_map_skip:
  "\<forall>x\<in>set xs. \<not> Q x \<longrightarrow> \<not> P (f x) \<Longrightarrow>
   filter P (map f xs) = filter P (map f (filter Q xs))"
  by (induction xs) auto

lemma record_text_no_message:
  "record_text item \<noteq> None \<Longrightarrow> \<not> has_message item \<Longrightarrow>
   record_text item = Some [] \<and> get_message item = Inr (JString [])"
  by (cases item) (auto simp: record_text_def has_message_def)

lemma normalize_empty: "normalize [] = []"
  by (simp add: normalize_eval)

text \<open>
  Claim C1 as stated: a file that exists but whose content cannot be parsed makes
  \<open>get_contextual_suggestion\<close> return the empty string without raising. It does not
  hold: the module has no exception handler, so the decoder's exception leaves
  \<open>get_contextual_suggestion\<close>; so does the \<^verbatim>\<open>AttributeError\<close> of a JSON list whose
  element is not an object.
\<close>

theorem unparseable_source_raises:
  "get_contextual_suggestion (File (Inl JSONDecodeError)) (str ''I will'') 5 \<noteq> Inr [] \<and>
   get_contextual_suggestion (File (Inl JSONDecodeError)) (str ''I will'') 5
     = Inl JSONDecodeError \<and>
   get_contextual_suggestion (File (Inr (JArray [JInt 1]))) (str ''I will'') 5
     = Inl AttributeError"
  by (simp add: get_contextual_suggestion_def)

text \<open>
  Claim C1, amended. When the file does not exist, \<open>get_contextual_suggestion\<close> returns
  the empty string for every user input and \<open>max_words\<close>. When the file exists and
  reading or decoding it raises, that exception propagates out of
  \<open>get_contextual_suggestion\<close> unchanged (its caller
  \<^verbatim>\<open>ContextLoader.load_contextual_suggestions\<close> is the one that catches it).
\<close>

theorem missing_source_empty_unparseable_propagates:
  "get_contextual_suggestion NoSuchFile user_input max_words = Inr [] \<and>
   get_contextual_suggestion (File (Inl e)) user_input max_words = Inl e"
  by (simp add: get_contextual_suggestion_def)

theorem missing_source_empty_unparseable_propagates_witness:
  "get_contextual_suggestion NoSuchFile (str ''I will'') 10 = Inr [] \<and>
   get_contextual_suggestion (File (Inl UnicodeDecodeError)) (str ''I will'') 10
     = Inl UnicodeDecodeError"
  using missing_source_empty_unparseable_propagates
    [of "str ''I will''" 10 UnicodeDecodeError]
  by simp

text \<open>
  Claim C5. If the corpus is empty, that is, the record list has no records or the text
  of every record normalizes to fewer than \<open>N = 3\<close> tokens, then the suggestion is the
  empty string, for every user input and \<open>max_words\<close>.
\<close>

theorem empty_corpus_empty_suggestion:
  assumes "\<forall>item\<in>set records. \<exists>t. record_text item = Some t \<and> length (normalize t) < 3"
  shows "get_contextual_suggestion (File (Inr (JArray records))) user_input max_words = Inr []"
proof -
  from assms have wf: "\<forall>item\<in>set records. record_text item \<noteq> None" by auto
  from assms have "filter (\<lambda>ts. N \<le> int (length ts))
      (map (\<lambda>item. normalize (the (record_text item))) records) = []"
    by (auto simp: filter_empty_conv N_def)
  with load_loop_records [OF wf, of "[]"] have "load_loop records [] = Inr []" by simp
  then show ?thesis by (simp add: get_contextual_suggestion_def)
qed


theorem empty_corpus_empty_suggestion_witness:
  "record_text (JObject [(str ''message'', JString (str ''ok''))]) = Some (str ''ok'') \<and>
   length (normalize (str ''ok'')) < 3 \<and>
   get_contextual_suggestion
     (File (Inr (JArray [JObject [(str ''message'', JString (str ''ok''))]])))
     (str ''let's talk'') 10 = Inr []"
proof -
  let ?r = "JObject [(str ''message'', JString (str ''ok''))]"
  have t: "record_text ?r = Some (str ''ok'')"
    by (simp add: record_text_def)
  have n: "length (normalize (str ''ok'')) < 3"
    by (simp add: normalize_eval)
  from t n have h: "\<forall>item\<in>set [?r]. \<exists>t. record_text item = Some t \<and> length (normalize t) < 3"
    by simp
  from empty_corpus_empty_suggestion [OF h] t n show ?thesis by (intro conjI)
qed

text \<open>
  Claim C10. In a well-formed record list, a record without a \<^verbatim>\<open>"message"\<close> key is
  read as having the empty text; it is skipped without an exception and adds no
  sentence: loading the list gives the same sentences as loading it with those records
  removed. A list whose records all lack the key loads as no sentences and gives the
  empty suggestion, as the empty record list does.
\<close>

theorem records_without_message_skipped:
  assumes "\<forall>item\<in>set records. record_text item \<noteq> None"
  shows
    "(\<forall>item\<in>set records. \<not> has_message item \<longrightarrow> get_message item = Inr (JString [])) \<and>
     (\<exists>sentences. load_sentences (File (Inr (JArray records))) = Inr sentences) \<and>
     load_sentences (File (Inr (JArray records)))
       = load_sentences (File (Inr (JArray (filter has_message records)))) \<and>
     ((\<forall>item\<in>set records. \<not> has_message item) \<longrightarrow>
        load_sentences (File (Inr (JArray records))) = Inr [] \<and>
        get_contextual_suggestion (File (Inr (JArray records))) user_input max_words = Inr [] \<and>
        get_contextual_suggestion (File (Inr (JArray records))) user_input max_words
          = get_contextual_suggestion (File (Inr (JArray []))) user_input max_words)"
proof -
  let ?P = "\<lambda>ts. N \<le> int (length ts)"
  let ?f = "\<lambda>item. normalize (the (record_text item))"
  have a: "\<forall>item\<in>set records. \<not> has_message item \<longrightarrow> get_message item = Inr (JString [])"
    using assms record_text_no_message by blast
  have l: "load_sentences (File (Inr (JArray records))) = Inr (filter ?P (map ?f records))"
    using load_loop_records [OF assms, of "[]"] by simp
  have wf': "\<forall>item\<in>set (filter has_message records). record_text item \<noteq> None"
    using assms by simp
  have l': "load_sentences (File (Inr (JArray (filter has_message records))))
      = Inr (filter ?P (map ?f (filter has_message records)))"
    using load_loop_records [OF wf', of "[]"] by simp
  have skip: "\<forall>item\<in>set records. \<not> has_message item \<longrightarrow> \<not> ?P (?f item)"
  proof (intro ballI impI)
    fix item
    assume "item \<in> set records" and "\<not> has_message item"
    with assms have "record_text item = Some []" using record_text_no_message by blast
    then show "\<not> ?P (?f item)" by (simp add: normalize_empty N_def)
  qed
  have eq: "filter ?P (map ?f records) = filter ?P (map ?f (filter has_message records))"
    using skip by (rule filter_map_skip)
  have none: "(\<forall>item\<in>set records. \<not> has_message item) \<longrightarrow>
      load_sentences (File (Inr (JArray records))) = Inr []"
  proof
    assume "\<forall>item\<in>set records. \<not> has_message item"
    then have "filter has_message records = []" by (simp add: filter_empty_conv)
    with l eq show "load_sentences (File (Inr (JArray records))) = Inr []" by simp
  qed
  have e: "get_contextual_suggestion (File (Inr (JArray []))) user_input max_words = Inr []"
    by (simp add: get_contextual_suggestion_def)
  have sug: "(\<forall>item\<in>set records. \<not> has_message item) \<longrightarrow>
      get_contextual_suggestion (File (Inr (JArray records))) user_input max_words = Inr []"
    using none by (auto simp: get_contextual_suggestion_def)
  from a l l' eq none sug e show ?thesis by simp
qed

theorem records_without_message_skipped_witness:
  "record_text (JObject [(str ''sender'', JString (str ''bob''))]) \<noteq> None \<and>
   record_text (JObject [(str ''message'', JString (str ''see you at noon''))]) \<noteq> None \<and>
   load_sentences (File (Inr (JArray
       [JObject [(str ''sender'', JString (str ''bob''))],
        JObject [(str ''message'', JString (str ''see you at noon''))]])))
     = load_sentences (File (Inr (JArray
       [JObject [(str ''message'', JString (str ''see you at noon''))]]))) \<and>
   get_message (JObject [(str ''sender'', JString (str ''bob''))]) = Inr (JString [])"
proof -
  let ?a = "JObject [(str ''sender'', JString (str ''bob''))]"
  let ?b = "JObject [(str ''message'', JString (str ''see you at noon''))]"
  have h: "\<forall>item\<in>set [?a, ?b]. record_text item \<noteq> None"
    by (simp add: record_text_def str_def)
  have f: "filter has_message [?a, ?b] = [?b]"
    by (simp add: has_message_def str_def)
  have m: "\<not> has_message ?a"
    by (simp add: has_message_def str_def)
  note t = records_without_message_skipped [OF h]
  have "\<not> has_message ?a \<longrightarrow> get_message ?a = Inr (JString [])"
    by (rule bspec [OF t [THEN conjunct1]]) simp
  from this m have g: "get_message ?a = Inr (JString [])" by (rule mp)
  have l: "load_sentences (File (Inr (JArray [?a, ?b])))
      = load_sentences (File (Inr (JArray [?b])))"
    using t [THEN conjunct2, THEN conjunct2, THEN conjunct1] by (simp only: f)
  from h have ha: "record_text ?a \<noteq> None" and hb: "record_text ?b \<noteq> None"
    by simp_all
  from ha hb l g show ?thesis by (intro conjI)
qed

subsection \<open>Autocomplete\<close>

text \<open>
  Claim C4. If the user input normalizes to fewer than \<open>N - 1 = 2\<close> tokens then
  \<open>autocomplete\<close> returns the empty string, whatever the model and \<open>max_words\<close>, without
  raising.
\<close>

theorem short_input_empty_suggestion:
  "length (normalize user_input) < 2 \<Longrightarrow>
   autocomplete model user_input max_words = (Inr [], model)"
  by (simp add: autocomplete_def N_def)

theorem short_input_empty_suggestion_witness:
  "length (normalize (str ''will'')) < 2 \<and>
   autocomplete [([str ''i'', str ''will''], [(str ''go'', 1)])] (str ''will'') 3
     = (Inr [], [([str ''i'', str ''will''], [(str ''go'', 1)])])"
proof -
  have h: "length (normalize (str ''will'')) < 2" by (simp add: normalize_eval)
  from short_input_empty_suggestion [OF h] show ?thesis using h by simp
qed

text \<open>
  The guard \<^verbatim>\<open>prefix not in model\<close> makes every read \<^verbatim>\<open>model[prefix]\<close> of the loop hit
  an existing key, so the inserting branch of \<open>defaultdict_getitem\<close> is never taken.
\<close>

lemma snd_autocomplete_loop:
  "snd (autocomplete_loop r model prefix suggestion) = model"
proof (induction r arbitrary: prefix suggestion)
  case Nil
  show ?case by simp
next
  case (Cons i r)
  show ?case
  proof (cases "has_key model prefix")
    case False
    then show ?thesis by simp
  next
    case True
    then obtain c where c: "map_of model prefix = Some c" by (auto simp: has_key_def)
    then have g: "defaultdict_getitem model prefix = (c, model)"
      by (simp add: defaultdict_getitem_def)
    show ?thesis using True g Cons.IH by (simp split: sum.splits)
  qed
qed

text \<open>
  Claim C7. \<open>autocomplete\<close> leaves the model as it was: the model after the call is the
  model before it, with the same Contexts and counts and no key added by the lookup.
  When the current Context is not in the model the loop stops with the suggestion
  built so far and raises nothing.
\<close>

theorem autocomplete_keeps_model:
  "snd (autocomplete model user_input max_words) = model \<and>
   (\<not> has_key model prefix \<longrightarrow>
      autocomplete_loop r model prefix suggestion = (Inr suggestion, model))"
proof -
  have "snd (autocomplete model user_input max_words) = model"
    using snd_autocomplete_loop [of "py_range max_words" model
        "slice (normalize user_input) (Some (- (N - 1))) None" "[]"]
    by (auto simp: autocomplete_def Let_def split: prod.splits sum.splits)
  moreover have "\<not> has_key model prefix \<longrightarrow>
      autocomplete_loop r model prefix suggestion = (Inr suggestion, model)"
    by (cases r) simp_all
  ultimately show ?thesis by simp
qed

theorem autocomplete_keeps_model_witness:
  "snd (autocomplete [([str ''i'', str ''will''], [(str ''go'', 1)])] (str ''I will'') 3)
     = [([str ''i'', str ''will''], [(str ''go'', 1)])] \<and>
   \<not> has_key [([str ''i'', str ''will''], [(str ''go'', 1)])] [str ''will'', str ''go''] \<and>
   autocomplete_loop [1, 2] [([str ''i'', str ''will''], [(str ''go'', 1)])]
       [str ''will'', str ''go''] [str ''go'']
     = (Inr [str ''go''], [([str ''i'', str ''will''], [(str ''go'', 1)])])"
proof -
  let ?m = "[([str ''i'', str ''will''], [(str ''go'', 1)])]"
  have h: "\<not> has_key ?m [str ''will'', str ''go'']"
    by (simp add: has_key_def str_def)
  note t = autocomplete_keeps_model
    [of ?m "str ''I will''" 3 "[str ''will'', str ''go'']" "[1, 2]" "[str ''go'']"]
  from t have a: "snd (autocomplete ?m (str ''I will'') 3) = ?m" by (rule conjunct1)
  from t [THEN conjunct2] h
  have b: "autocomplete_loop [1, 2] ?m [str ''will'', str ''go''] [str ''go'']
      = (Inr [str ''go''], ?m)" by (rule mp)
  from a h b show ?thesis by (intro conjI)
qed










subsection \<open>Building the model\<close>

text \<open>
  The index \<^verbatim>\<open>i + N - 1\<close> is in range for every \<open>i\<close> of the inner loop, so
  \<open>build_ngram_model\<close> never raises: it is the counting pass over \<open>observations\<close>.
\<close>

lemma slice_window:
  "i + 2 < length tokens \<Longrightarrow>
   slice tokens (Some (int i)) (Some (int i + N - 1)) = take 2 (drop i tokens)"
proof -
  assume i: "i + 2 < length tokens"
  have "nat (int i + 3 - 1) = i + 2" by arith
  with i show ?thesis by (simp add: slice_def slice_bound_def N_def Let_def)
qed

lemma getitem_window:
  "i + 2 < length tokens \<Longrightarrow> list_getitem tokens (int i + N - 1) = Inr (tokens ! (i + 2))"
proof -
  assume i: "i + 2 < length tokens"
  have "nat (int i + 3 - 1) = i + 2" by arith
  with i show ?thesis by (simp add: list_getitem_def N_def)
qed

lemma build_inner_fold:
  "\<forall>i\<in>set ns. i + 2 < length tokens \<Longrightarrow>
   build_inner tokens (map int ns) model =
     Inr (count_pass (map (\<lambda>i. (take 2 (drop i tokens), tokens ! (i + 2))) ns) model)"
proof (induction ns arbitrary: model)
  case Nil
  show ?case by (simp add: count_pass_def)
next
  case (Cons i ns)
  then have i: "i + 2 < length tokens" and rest: "\<forall>i\<in>set ns. i + 2 < length tokens"
    by simp_all
  show ?case
    using slice_window [OF i] getitem_window [OF i] Cons.IH [OF rest]
    by (simp add: count_pass_def)
qed

lemma build_inner_ngrams:
  "build_inner tokens (py_range (int (length tokens) - N + 1)) model
     = Inr (count_pass (ngrams tokens) model)"
proof -
  have r: "py_range (int (length tokens) - N + 1) = map int [0..<length tokens - 2]"
  proof -
    have "nat (int (length tokens) - 3 + 1) = length tokens - 2" by arith
    then show ?thesis by (simp add: py_range_def N_def)
  qed
  have "\<forall>i\<in>set [0..<length tokens - 2]. i + 2 < length tokens" by auto
  from build_inner_fold [OF this] r show ?thesis by (simp add: ngrams_def)
qed

lemma build_outer_observations:
  "build_outer sentences model = Inr (count_pass (observations sentences) model)"
proof (induction sentences arbitrary: model)
  case Nil
  show ?case by (simp add: observations_def count_pass_def)
next
  case (Cons tokens rest)
  show ?case
    using build_inner_ngrams [of tokens model] Cons.IH
    by (simp add: observations_def count_pass_def)
qed

lemma build_ngram_model_count_pass:
  "build_ngram_model sentences = Inr (count_pass (observations sentences) [])"
  by (simp add: build_ngram_model_def build_outer_observations)


text \<open>
  The invariant of the counting pass: after counting \<open>obs\<close>, the Counter at every
  Context \<open>k\<close> of the model is \<open>counter_of obs k\<close>, and it is not empty.
\<close>

lemma map_of_setitem: "map_of (setitem d k v) = (map_of d)(k \<mapsto> v)"
  by (induction d) (auto simp: fun_eq_iff)

lemma keys_setitem:
  "map fst (setitem d k v) = (if k \<in> set (map fst d) then map fst d else map fst d @ [k])"
  by (induction d) auto

lemma set_setitem:
  "distinct (map fst d) \<Longrightarrow> set (setitem d k v) = insert (k, v) {x \<in> set d. fst x \<noteq> k}"
  by (induction d) (auto simp: rev_image_eqI)

lemma setitem_not_empty: "setitem d k v \<noteq> []"
  by (cases d) simp_all

lemma first_seen_append: "x \<in> set xs \<Longrightarrow> first_seen x (xs @ ys) = first_seen x xs"
  by (simp add: first_seen_def takeWhile_append1)

lemma first_seen_less: "x \<in> set xs \<Longrightarrow> first_seen x xs < length xs"
proof -
  assume "x \<in> set xs"
  then have "takeWhile (\<lambda>y. y \<noteq> x) xs \<noteq> xs" by (auto simp: takeWhile_eq_all_conv)
  moreover have "length (takeWhile (\<lambda>y. y \<noteq> x) xs) \<le> length xs"
    by (rule length_takeWhile_le)
  ultimately show ?thesis
    unfolding first_seen_def
    by (metis le_neq_implies_less takeWhile_eq_take take_all_iff le_refl)
qed

lemma first_seen_new: "x \<notin> set xs \<Longrightarrow> first_seen x (xs @ [x]) = length xs"
  by (induction xs) (auto simp: first_seen_def)

lemma sorted_wrt_measure_cong:
  "\<forall>a\<in>set xs. f a = g a \<Longrightarrow> sorted_wrt (\<lambda>a b. (f a :: nat) < f b) xs \<Longrightarrow>
   sorted_wrt (\<lambda>a b. g a < g b) xs"
  by (induction xs) auto

lemma count_ngram_lookup:
  "map_of (count_ngram m p w) q =
     (if q = p
      then Some (let c = (case map_of m p of Some c \<Rightarrow> c | None \<Rightarrow> [])
                 in setitem c w (counter_getitem c w + 1))
      else map_of m q)"
  by (simp add: count_ngram_def defaultdict_getitem_def map_of_setitem split: option.splits)

lemma counter_of_empty: "\<forall>w. (p, w) \<notin> set obs \<Longrightarrow> counter_of obs p []"
  by (auto simp: counter_of_def filter_empty_conv)

lemma counter_of_other:
  assumes "q \<noteq> p" and "counter_of obs q c"
  shows "counter_of (obs @ [(p, w)]) q c"
proof -
  from assms(2) have keys: "\<forall>a\<in>set (map fst c). (q, a) \<in> set obs"
    by (auto simp: counter_of_def)
  have fs: "\<forall>a\<in>set (map fst c). first_seen (q, a) obs = first_seen (q, a) (obs @ [(p, w)])"
    using keys first_seen_append by fastforce
  from assms(2) have "sorted_wrt (\<lambda>a b. first_seen (q, a) obs < first_seen (q, b) obs) (map fst c)"
    by (simp add: counter_of_def)
  then have "sorted_wrt (\<lambda>a b. first_seen (q, a) (obs @ [(p, w)])
       < first_seen (q, b) (obs @ [(p, w)])) (map fst c)"
    by (rule sorted_wrt_measure_cong
        [where f = "\<lambda>a. first_seen (q, a) obs"
           and g = "\<lambda>a. first_seen (q, a) (obs @ [(p, w)])", OF fs])
  with assms show ?thesis by (auto simp: counter_of_def)
qed

lemma counter_of_step:
  assumes "counter_of obs p c"
  shows "counter_of (obs @ [(p, w)]) p (setitem c w (counter_getitem c w + 1))"
proof -
  let ?obs' = "obs @ [(p, w)]"
  let ?c' = "setitem c w (counter_getitem c w + 1)"
  let ?P = "\<lambda>a b. first_seen (p, a) obs < first_seen (p, b) obs"
  let ?P' = "\<lambda>a b. first_seen (p, a) ?obs' < first_seen (p, b) ?obs'"
  from assms have d: "distinct (map fst c)"
    and k: "set (map fst c) = set (map snd (filter (\<lambda>ob. fst ob = p) obs))"
    and n: "\<forall>(a, n)\<in>set c. n = int (count_list obs (p, a))"
    and s: "sorted_wrt ?P (map fst c)"
    by (simp_all add: counter_of_def)
  from k have keys: "\<And>a. a \<in> set (map fst c) \<longleftrightarrow> (p, a) \<in> set obs" by force
  have fs: "\<forall>a\<in>set (map fst c). first_seen (p, a) obs = first_seen (p, a) ?obs'"
    using keys first_seen_append by fastforce
  from s have s_old: "sorted_wrt ?P' (map fst c)"
    by (rule sorted_wrt_measure_cong
        [where f = "\<lambda>a. first_seen (p, a) obs"
           and g = "\<lambda>a. first_seen (p, a) ?obs'", OF fs])
  have d': "distinct (map fst ?c')" using d by (simp add: keys_setitem)
  have k': "set (map fst ?c') = set (map snd (filter (\<lambda>ob. fst ob = p) ?obs'))"
    using k by (auto simp: keys_setitem)
  have cnt_w: "counter_getitem c w = int (count_list obs (p, w))"
  proof (cases "map_of c w")
    case None
    then have "w \<notin> set (map fst c)" by (simp add: map_of_eq_None_iff)
    with keys have "(p, w) \<notin> set obs" by simp
    then have "count_list obs (p, w) = 0" by (simp add: count_list_0_iff)
    with None show ?thesis by (simp add: counter_getitem_def)
  next
    case (Some m)
    then have "(w, m) \<in> set c" by (rule map_of_SomeD)
    with n have "m = int (count_list obs (p, w))" by auto
    with Some show ?thesis by (simp add: counter_getitem_def)
  qed
  have n': "\<forall>(a, m)\<in>set ?c'. m = int (count_list ?obs' (p, a))"
    using n cnt_w by (auto simp: set_setitem [OF d])
  have s': "sorted_wrt ?P' (map fst ?c')"
  proof (cases "w \<in> set (map fst c)")
    case True
    with s_old show ?thesis by (simp add: keys_setitem)
  next
    case False
    with keys have new: "(p, w) \<notin> set obs" by simp
    have "\<forall>a\<in>set (map fst c). ?P' a w"
    proof
      fix a
      assume a: "a \<in> set (map fst c)"
      with keys have "(p, a) \<in> set obs" by simp
      then have "first_seen (p, a) obs < length obs" by (rule first_seen_less)
      moreover from fs a have "first_seen (p, a) obs = first_seen (p, a) ?obs'" by (rule bspec)
      ultimately show "?P' a w" using first_seen_new [OF new] by simp
    qed
    with s_old False show ?thesis by (simp add: keys_setitem sorted_wrt_append)
  qed
  from d' k' n' s' show ?thesis by (simp add: counter_of_def)
qed

lemma count_pass_snoc:
  "count_pass (obs @ [(p, w)]) m = count_ngram (count_pass obs m) p w"
  by (simp add: count_pass_def)

lemma count_pass_invariant:
  "(\<forall>q c. map_of (count_pass obs []) q = Some c \<longrightarrow> counter_of obs q c \<and> c \<noteq> []) \<and>
   (\<forall>q a. (q, a) \<in> set obs \<longrightarrow> map_of (count_pass obs []) q \<noteq> None)"
proof (induction obs rule: rev_induct)
  case Nil
  show ?case by (simp add: count_pass_def)
next
  case (snoc ob obs)
  obtain p w where ob: "ob = (p, w)" by (cases ob)
  let ?m = "count_pass obs []"
  let ?c = "case map_of ?m p of Some c \<Rightarrow> c | None \<Rightarrow> []"
  from snoc.IH have old: "\<And>q c. map_of ?m q = Some c \<Longrightarrow> counter_of obs q c \<and> c \<noteq> []"
    and dom: "\<And>q a. (q, a) \<in> set obs \<Longrightarrow> map_of ?m q \<noteq> None"
    by blast+
  have c: "counter_of obs p ?c"
  proof (cases "map_of ?m p")
    case None
    with dom have "\<forall>a. (p, a) \<notin> set obs" by blast
    with None show ?thesis by (simp add: counter_of_empty)
  next
    case (Some c)
    with old show ?thesis by simp
  qed
  have look: "\<And>q. map_of (count_pass (obs @ [ob]) []) q =
      (if q = p then Some (setitem ?c w (counter_getitem ?c w + 1)) else map_of ?m q)"
    by (simp add: ob count_pass_snoc count_ngram_lookup Let_def)
  have a: "\<forall>q c. map_of (count_pass (obs @ [ob]) []) q = Some c \<longrightarrow>
      counter_of (obs @ [ob]) q c \<and> c \<noteq> []"
  proof (intro allI impI)
    fix q c
    assume h: "map_of (count_pass (obs @ [ob]) []) q = Some c"
    show "counter_of (obs @ [ob]) q c \<and> c \<noteq> []"
    proof (cases "q = p")
      case True
      with h look have "c = setitem ?c w (counter_getitem ?c w + 1)" by simp
      with True counter_of_step [OF \<open>counter_of obs p ?c\<close>, of w] show ?thesis
        by (simp add: ob setitem_not_empty)
    next
      case False
      with h look have "map_of ?m q = Some c" by simp
      with old have "counter_of obs q c \<and> c \<noteq> []" by simp
      with False counter_of_other [of q p obs c w] show ?thesis by (simp add: ob)
    qed
  qed
  have b: "\<forall>q a. (q, a) \<in> set (obs @ [ob]) \<longrightarrow> map_of (count_pass (obs @ [ob]) []) q \<noteq> None"
    using dom look by (auto simp: ob)
  from a b show ?case by simp
qed


text \<open>
  \<open>max_by_count\<close> returns the first item of maximal count: every item before it has a
  strictly smaller count, every item after it a count that is not greater.
\<close>

lemma max_by_count_split:
  "\<exists>pre post. best # xs = pre @ max_by_count best xs # post \<and>
     (\<forall>x\<in>set pre. snd x < snd (max_by_count best xs)) \<and>
     (\<forall>x\<in>set post. snd x \<le> snd (max_by_count best xs))"
proof (induction xs arbitrary: best)
  case Nil
  have "[best] = [] @ max_by_count best [] # []" by simp
  then show ?case by force
next
  case (Cons x xs)
  define b where "b = (if snd best < snd x then x else best)"
  define r where "r = max_by_count best (x # xs)"
  have r: "r = max_by_count b xs" by (simp add: r_def b_def)
  from Cons.IH [of b] obtain pre post
    where e: "b # xs = pre @ r # post"
      and lt: "\<forall>y\<in>set pre. snd y < snd r"
      and le: "\<forall>y\<in>set post. snd y \<le> snd r"
    unfolding r by blast
  have "b \<in> set (pre @ r # post)" using e by (metis list.set_intros(1))
  with lt le have ge: "snd b \<le> snd r" by auto
  have "\<exists>pre' post'. best # x # xs = pre' @ r # post' \<and>
     (\<forall>y\<in>set pre'. snd y < snd r) \<and> (\<forall>y\<in>set post'. snd y \<le> snd r)"
  proof (cases "snd best < snd x")
    case True
    then have bx: "b = x" by (simp add: b_def)
    with e have "best # x # xs = (best # pre) @ r # post" by simp
    moreover from True ge lt bx have "\<forall>y\<in>set (best # pre). snd y < snd r" by auto
    ultimately show ?thesis using le by blast
  next
    case False
    then have bb: "b = best" by (simp add: b_def)
    show ?thesis
    proof (cases pre)
      case Nil
      with e bb have "best # x # xs = [] @ r # (x # post)" by simp
      moreover from Nil e bb False le have "\<forall>y\<in>set (x # post). snd y \<le> snd r" by auto
      ultimately show ?thesis by force
    next
      case (Cons p pre')
      with e bb have "best # x # xs = (best # x # pre') @ r # post" by simp
      moreover from Cons e bb False lt have "\<forall>y\<in>set (best # x # pre'). snd y < snd r"
        by auto
      ultimately show ?thesis using le by blast
    qed
  qed
  then show ?case unfolding r_def .
qed

lemma most_common_1_first_max:
  assumes "cnt \<noteq> []"
  shows "\<exists>r pre post. most_common_1 cnt = [r] \<and> cnt = pre @ r # post \<and>
     (\<forall>x\<in>set pre. snd x < snd r) \<and> (\<forall>x\<in>set post. snd x \<le> snd r)"
proof -
  from assms obtain x xs where c: "cnt = x # xs" by (cases cnt) auto
  from max_by_count_split [of x xs] c show ?thesis by auto
qed

lemma loop_step:
  assumes "map_of model prefix = Some cnt" and "most_common_1 cnt = [(w, n)]"
  shows "autocomplete_loop (i # rest) model prefix suggestion =
     autocomplete_loop rest model (slice prefix (Some 1) None @ [w]) (suggestion @ [w])"
  using assms by (simp add: has_key_def defaultdict_getitem_def list_getitem_def)

text \<open>
  Claim C3. In a model produced by \<open>build_ngram_model\<close>, at every Context present in it,
  the loop of \<open>autocomplete\<close> selects a next-Token whose count is the maximum of that
  Context's Counter (the count being the number of times the pair was counted), and
  every other next-Token with the same count was first recorded for that Context later
  in the counting pass.
\<close>

theorem selected_token_most_common_first_recorded:
  assumes "build_ngram_model sentences = Inr model" and "map_of model prefix = Some cnt"
  shows "\<exists>w n.
     autocomplete_loop (i # rest) model prefix suggestion =
       autocomplete_loop rest model (slice prefix (Some 1) None @ [w]) (suggestion @ [w]) \<and>
     (w, n) \<in> set cnt \<and> n = int (count_list (observations sentences) (prefix, w)) \<and>
     (\<forall>(w', n')\<in>set cnt. n' \<le> n) \<and>
     (\<forall>(w', n')\<in>set cnt. n' = n \<and> w' \<noteq> w \<longrightarrow>
        first_seen (prefix, w) (observations sentences)
          < first_seen (prefix, w') (observations sentences))"
proof -
  let ?obs = "observations sentences"
  from assms(1) have m: "model = count_pass ?obs []"
    by (simp add: build_ngram_model_count_pass)
  with assms(2) count_pass_invariant [of ?obs]
  have co: "counter_of ?obs prefix cnt" and ne: "cnt \<noteq> []" by blast+
  from most_common_1_first_max [OF ne] obtain r pre post
    where mc: "most_common_1 cnt = [r]" and split: "cnt = pre @ r # post"
      and lt: "\<forall>x\<in>set pre. snd x < snd r" and le: "\<forall>x\<in>set post. snd x \<le> snd r"
    by blast
  obtain w n where r: "r = (w, n)" by (cases r)
  have step: "autocomplete_loop (i # rest) model prefix suggestion =
       autocomplete_loop rest model (slice prefix (Some 1) None @ [w]) (suggestion @ [w])"
  proof -
    from mc r have "most_common_1 cnt = [(w, n)]" by simp
    with assms(2) show ?thesis by (rule loop_step)
  qed
  have mem: "(w, n) \<in> set cnt" using split r by simp
  from co mem have cnt_n: "n = int (count_list ?obs (prefix, w))"
    by (auto simp: counter_of_def)
  have mx: "\<forall>(w', n')\<in>set cnt. n' \<le> n"
    using split lt le r by auto
  from co have "sorted_wrt (\<lambda>a b. first_seen (prefix, a) ?obs < first_seen (prefix, b) ?obs)
      (map fst pre @ w # map fst post)"
    by (simp add: counter_of_def split r)
  then have after: "\<forall>b\<in>set (map fst post). first_seen (prefix, w) ?obs < first_seen (prefix, b) ?obs"
    by (simp add: sorted_wrt_append)
  have tie: "\<forall>(w', n')\<in>set cnt. n' = n \<and> w' \<noteq> w \<longrightarrow>
        first_seen (prefix, w) ?obs < first_seen (prefix, w') ?obs"
  proof (intro ballI, clarify)
    fix w' n'
    assume in_cnt: "(w', n) \<in> set cnt" and neq: "w' \<noteq> w"
    from in_cnt split r neq lt have "(w', n) \<in> set post" by auto
    then have "w' \<in> set (map fst post)" by force
    with after show "first_seen (prefix, w) ?obs < first_seen (prefix, w') ?obs" by blast
  qed
  from step mem cnt_n mx tie show ?thesis by blast
qed

text \<open>Rules to evaluate the counting on a concrete model.\<close>

lemma count_ngram_Nil: "count_ngram [] p w = [(p, [(w, 1)])]"
  by (simp add: count_ngram_def defaultdict_getitem_def counter_getitem_def)

lemma count_ngram_Cons:
  "count_ngram ((k, c) # m) p w =
     (if k = p then (k, setitem c w (counter_getitem c w + 1)) # m
      else (k, c) # count_ngram m p w)"
  by (auto simp: count_ngram_def defaultdict_getitem_def split: option.splits)

lemma counter_getitem_Nil: "counter_getitem [] w = 0"
  by (simp add: counter_getitem_def)

lemma counter_getitem_Cons:
  "counter_getitem ((k, n) # c) w = (if k = w then n else counter_getitem c w)"
  by (simp add: counter_getitem_def)

lemmas model_eval =
  slice_def slice_bound_def list_getitem_def
  count_ngram_Nil count_ngram_Cons counter_getitem_Nil counter_getitem_Cons


theorem selected_token_most_common_first_recorded_witness:
  "build_ngram_model
     [[str ''go'', str ''to'', str ''work''], [str ''go'', str ''to'', str ''sleep'']]
     = Inr [([str ''go'', str ''to''], [(str ''work'', 1), (str ''sleep'', 1)])] \<and>
   map_of [([str ''go'', str ''to''], [(str ''work'', 1::int), (str ''sleep'', 1)])]
     [str ''go'', str ''to''] = Some [(str ''work'', 1), (str ''sleep'', 1)] \<and>
   autocomplete_loop [0] [([str ''go'', str ''to''], [(str ''work'', 1), (str ''sleep'', 1)])]
     [str ''go'', str ''to''] []
     = (Inr [str ''work''], [([str ''go'', str ''to''], [(str ''work'', 1), (str ''sleep'', 1)])])"
proof -
  let ?S = "[[str ''go'', str ''to'', str ''work''], [str ''go'', str ''to'', str ''sleep'']]"
  let ?P = "[str ''go'', str ''to'']"
  let ?C = "[(str ''work'', 1::int), (str ''sleep'', 1)]"
  let ?M = "[(?P, ?C)]"
  have h1: "build_ngram_model ?S = Inr ?M"
    by (simp add: build_ngram_model_def py_range_def N_def slice_def slice_bound_def
        list_getitem_def count_ngram_Nil count_ngram_Cons counter_getitem_Nil
        counter_getitem_Cons str_def)
  have h2: "map_of ?M ?P = Some ?C" by simp
  have obs: "observations ?S = [(?P, str ''work''), (?P, str ''sleep'')]"
    by (simp add: observations_def ngrams_def)
  have ne: "str ''sleep'' \<noteq> str ''work''" by (simp add: str_def)
  from selected_token_most_common_first_recorded [OF h1 h2, of 0 "[]" "[]"]
  obtain w n where
    step: "autocomplete_loop [0] ?M ?P [] =
       autocomplete_loop [] ?M (slice ?P (Some 1) None @ [w]) ([] @ [w])"
    and mem: "(w, n) \<in> set ?C"
    and tie: "\<forall>(w', n')\<in>set ?C. n' = n \<and> w' \<noteq> w \<longrightarrow>
        first_seen (?P, w) (observations ?S) < first_seen (?P, w') (observations ?S)"
    by blast
  have w: "w = str ''work''"
  proof (rule ccontr)
    assume "w \<noteq> str ''work''"
    with mem have ws: "w = str ''sleep''" and n1: "n = 1" by auto
    from tie have "1 = n \<and> str ''work'' \<noteq> w \<longrightarrow>
        first_seen (?P, w) (observations ?S) < first_seen (?P, str ''work'') (observations ?S)"
      by simp
    with ws n1 ne have "first_seen (?P, str ''sleep'') (observations ?S)
        < first_seen (?P, str ''work'') (observations ?S)" by simp
    with ne show False by (simp add: obs first_seen_def)
  qed
  from step w have "autocomplete_loop [0] ?M ?P [] = (Inr [str ''work''], ?M)" by simp
  with h1 h2 show ?thesis by (intro conjI)
qed

subsection \<open>The two-message scenario\<close>

text \<open>The scenario step by step: tokens, sentences, model, loop.\<close>

lemma py_range_4: "py_range 4 = [0, 1, 2, 3]"
proof -
  have "[0..<4] = [0, 1, 2, Suc 2]" by (simp add: upt_rec)
  then show ?thesis by (simp add: py_range_def)
qed

lemma py_range_5: "py_range 5 = [0, 1, 2, 3, 4]"
proof -
  have "[0..<5] = [0, 1, 2, 3, Suc 3]" by (simp add: upt_rec)
  then show ?thesis by (simp add: py_range_def)
qed

lemma scenario_normalize_1: "normalize (str ''I will review the document today'') =
  [str ''i'', str ''will'', str ''review'', str ''the'', str ''document'', str ''today'']"
  by (simp add: normalize_eval)

lemma scenario_normalize_2: "normalize (str ''I will send the review today'') =
  [str ''i'', str ''will'', str ''send'', str ''the'', str ''review'', str ''today'']"
  by (simp add: normalize_eval)

lemma scenario_normalize_input: "normalize (str ''I will'') = [str ''i'', str ''will'']"
  by (simp add: normalize_eval)

lemma scenario_load: "load_sentences (File (Inr (JArray
        [JObject [(str ''message'', JString (str ''I will review the document today''))],
         JObject [(str ''message'', JString (str ''I will send the review today''))]])))
   = Inr [[str ''i'', str ''will'', str ''review'', str ''the'', str ''document'', str ''today''],
          [str ''i'', str ''will'', str ''send'', str ''the'', str ''review'', str ''today'']]"
  by (simp add: scenario_normalize_1 scenario_normalize_2 N_def)

lemma scenario_build_inner_1: "build_inner
   [str ''i'', str ''will'', str ''review'', str ''the'', str ''document'', str ''today'']
   [0, 1, 2, 3] [] =
   Inr [([str ''i'', str ''will''], [(str ''review'', 1)]),
        ([str ''will'', str ''review''], [(str ''the'', 1)]),
        ([str ''review'', str ''the''], [(str ''document'', 1)]),
        ([str ''the'', str ''document''], [(str ''today'', 1)])]"
  by (simp add: model_eval N_def str_def)

lemma scenario_build_inner_2: "build_inner
   [str ''i'', str ''will'', str ''send'', str ''the'', str ''review'', str ''today'']
   [0, 1, 2, 3]
   [([str ''i'', str ''will''], [(str ''review'', 1)]),
    ([str ''will'', str ''review''], [(str ''the'', 1)]),
    ([str ''review'', str ''the''], [(str ''document'', 1)]),
    ([str ''the'', str ''document''], [(str ''today'', 1)])] =
   Inr [([str ''i'', str ''will''], [(str ''review'', 1), (str ''send'', 1)]),
        ([str ''will'', str ''review''], [(str ''the'', 1)]),
        ([str ''review'', str ''the''], [(str ''document'', 1)]),
        ([str ''the'', str ''document''], [(str ''today'', 1)]),
        ([str ''will'', str ''send''], [(str ''the'', 1)]),
        ([str ''send'', str ''the''], [(str ''review'', 1)]),
        ([str ''the'', str ''review''], [(str ''today'', 1)])]"
  by (simp add: model_eval N_def str_def)

lemma scenario_model: "build_ngram_model
   [[str ''i'', str ''will'', str ''review'', str ''the'', str ''document'', str ''today''],
    [str ''i'', str ''will'', str ''send'', str ''the'', str ''review'', str ''today'']] =
   Inr [([str ''i'', str ''will''], [(str ''review'', 1), (str ''send'', 1)]),
        ([str ''will'', str ''review''], [(str ''the'', 1)]),
        ([str ''review'', str ''the''], [(str ''document'', 1)]),
        ([str ''the'', str ''document''], [(str ''today'', 1)]),
        ([str ''will'', str ''send''], [(str ''the'', 1)]),
        ([str ''send'', str ''the''], [(str ''review'', 1)]),
        ([str ''the'', str ''review''], [(str ''today'', 1)])]"
proof -
  have r: "py_range (int (length [a, b, c, d, e, f :: token]) - N + 1) = [0, 1, 2, 3]" for a b c d e f
    using py_range_4 by (simp add: N_def)
  show ?thesis
    by (simp only: build_ngram_model_def build_outer.simps r scenario_build_inner_1 scenario_build_inner_2 sum.case)
qed

lemma scenario_loop: "autocomplete_loop [0, 1, 2, 3, 4]
   [([str ''i'', str ''will''], [(str ''review'', 1), (str ''send'', 1)]),
        ([str ''will'', str ''review''], [(str ''the'', 1)]),
        ([str ''review'', str ''the''], [(str ''document'', 1)]),
        ([str ''the'', str ''document''], [(str ''today'', 1)]),
        ([str ''will'', str ''send''], [(str ''the'', 1)]),
        ([str ''send'', str ''the''], [(str ''review'', 1)]),
        ([str ''the'', str ''review''], [(str ''today'', 1)])]
   [str ''i'', str ''will''] [] =
  (Inr [str ''review'', str ''the'', str ''document'', str ''today''],
   [([str ''i'', str ''will''], [(str ''review'', 1), (str ''send'', 1)]),
        ([str ''will'', str ''review''], [(str ''the'', 1)]),
        ([str ''review'', str ''the''], [(str ''document'', 1)]),
        ([str ''the'', str ''document''], [(str ''today'', 1)]),
        ([str ''will'', str ''send''], [(str ''the'', 1)]),
        ([str ''send'', str ''the''], [(str ''review'', 1)]),
        ([str ''the'', str ''review''], [(str ''today'', 1)])])"
  by (simp add: slice_def slice_bound_def list_getitem_def defaultdict_getitem_def has_key_def str_def Let_def)

text \<open>
  Claim C2. For the corpus of exactly the two messages
  \<^verbatim>\<open>"I will review the document today"\<close> and \<^verbatim>\<open>"I will send the review today"\<close>, in that
  order, with \<open>N = 3\<close>, the query with user input \<^verbatim>\<open>"I will"\<close> and \<open>max_words = 5\<close> returns
  exactly \<^verbatim>\<open>"review the document today"\<close>.
\<close>

theorem two_message_scenario:
  "get_contextual_suggestion
     (File (Inr (JArray
        [JObject [(str ''message'', JString (str ''I will review the document today''))],
         JObject [(str ''message'', JString (str ''I will send the review today''))]])))
     (str ''I will'') 5
   = Inr (str ''review the document today'')"
proof -
  let ?model =
    "[([str ''i'', str ''will''], [(str ''review'', 1), (str ''send'', 1)]),
      ([str ''will'', str ''review''], [(str ''the'', 1)]),
      ([str ''review'', str ''the''], [(str ''document'', 1)]),
      ([str ''the'', str ''document''], [(str ''today'', 1)]),
      ([str ''will'', str ''send''], [(str ''the'', 1)]),
      ([str ''send'', str ''the''], [(str ''review'', 1)]),
      ([str ''the'', str ''review''], [(str ''today'', 1)])]"
  have s: "slice [str ''i'', str ''will''] (Some (- (N - 1))) None = [str ''i'', str ''will'']"
    by (simp add: slice_def slice_bound_def N_def)
  have j: "join (str '' '') [str ''review'', str ''the'', str ''document'', str ''today'']
      = str ''review the document today''"
    by (simp add: str_def)
  have a: "autocomplete ?model (str ''I will'') 5
      = (Inr (str ''review the document today''), ?model)"
  proof -
    have len: "\<not> int (length [str ''i'', str ''will'']) < N - 1" by (simp add: N_def)
    show ?thesis
      by (simp only: autocomplete_def Let_def scenario_normalize_input len if_False s py_range_5 scenario_loop j
          prod.case sum.case)
  qed
  show ?thesis
    by (simp only: get_contextual_suggestion_def scenario_load scenario_model a sum.case list.simps if_False fst_conv)
qed

subsection \<open>The bound on the suggestion\<close>

















end
